theory Spec2Isabelle
  imports Main
begin

section \<open>AsyncCTK: the object and its update registry\<close>

text \<open>
  The class \<^verbatim>\<open>AsyncCTK\<close> of \<^verbatim>\<open>async_customtkinter.py\<close> keeps an update interval
  (milliseconds), a list of update functions, a queue of commands and the flag
  \<^verbatim>\<open>_application_closed\<close>. A callable is modelled by its identity (a natural number):
  Python compares function objects by identity, and \<^verbatim>\<open>list.remove\<close> uses that comparison.
\<close>

datatype py_error = ValueError | TclError | TimeoutError | CancelledError | OtherError nat

type_synonym func = nat

text \<open>
  \<^verbatim>\<open>list.remove(x)\<close> searches the list from the front for the first item equal to
  \<^verbatim>\<open>x\<close>, deletes that one item, and raises \<^verbatim>\<open>ValueError\<close> when the search ends
  without a match. The list after the call is part of the result, also when it raises.
\<close>

fun list_index :: "'a list \<Rightarrow> 'a \<Rightarrow> nat option" where
  "list_index [] x = None"
| "list_index (y # ys) x =
     (if y = x then Some 0
      else (case list_index ys x of None \<Rightarrow> None | Some i \<Rightarrow> Some (Suc i)))"

definition list_remove :: "'a list \<Rightarrow> 'a \<Rightarrow> (py_error + unit) \<times> 'a list" where
  "list_remove xs x =
     (case list_index xs x of
        None \<Rightarrow> (Inl ValueError, xs)
      | Some i \<Rightarrow> (Inr (), take i xs @ drop (Suc i) xs))"

definition list_append :: "'a list \<Rightarrow> 'a \<Rightarrow> 'a list" where
  "list_append xs x = xs @ [x]"

section \<open>Awaitables in virtual time\<close>

text \<open>
  The program runs on one asyncio event loop. An awaitable is described by what it does
  once started, on a virtual clock counting milliseconds from its start: it returns
  after some time, raises after some time, or never finishes. The clock is discrete and
  the float seconds of the source (\<^verbatim>\<open>self._update_interval / 1000\<close>, \<^verbatim>\<open>0.1\<close>,
  \<^verbatim>\<open>0.01\<close>) are kept in milliseconds.
\<close>

datatype outcome = Returns nat | Raises nat py_error | Hangs

text \<open>What has happened to a child of a composite awaitable when the composite finishes.\<close>

datatype fate = Done nat | Cancelled nat | StillRunning

definition sleep :: "nat \<Rightarrow> outcome" where
  "sleep d = Returns d"

text \<open>
  The awaitable is still pending when a timer set for time \<open>T\<close> fires. An awaitable that
  ends at \<open>T\<close> itself has ended by then: in the one place where this is used, the timers
  of the awaitable were set before the timer for \<open>T\<close>, and timers fire in that order.
\<close>

fun pending_at :: "nat \<Rightarrow> outcome \<Rightarrow> bool" where
  "pending_at T (Returns d) = (T < d)"
| "pending_at T (Raises d e) = (T < d)"
| "pending_at T Hangs = True"

text \<open>An awaitable started at time \<open>t\<close>, seen on the clock of whoever started it.\<close>

fun delayed :: "nat \<Rightarrow> outcome \<Rightarrow> outcome" where
  "delayed t (Returns d) = Returns (t + d)"
| "delayed t (Raises d e) = Raises (t + d) e"
| "delayed t Hangs = Hangs"

text \<open>An awaitable whose end is noticed only once the event loop is free, at \<open>t\<close>.\<close>

fun not_before :: "nat \<Rightarrow> outcome \<Rightarrow> outcome" where
  "not_before t (Returns d) = Returns (max t d)"
| "not_before t (Raises d e) = Raises (max t d) e"
| "not_before t Hangs = Hangs"

text \<open>The first exception among the children: the earliest, the leftmost among equals.\<close>

fun first_raise :: "outcome list \<Rightarrow> (nat \<times> py_error) option" where
  "first_raise [] = None"
| "first_raise (Raises t e # os) =
     (case first_raise os of
        None \<Rightarrow> Some (t, e)
      | Some (t', e') \<Rightarrow> if t' < t then Some (t', e') else Some (t, e))"
| "first_raise (Returns t # os) = first_raise os"
| "first_raise (Hangs # os) = first_raise os"

fun all_returned :: "outcome list \<Rightarrow> nat option" where
  "all_returned [] = Some 0"
| "all_returned (Returns t # os) =
     (case all_returned os of None \<Rightarrow> None | Some m \<Rightarrow> Some (max t m))"
| "all_returned (Raises t e # os) = None"
| "all_returned (Hangs # os) = None"

text \<open>
  \<^verbatim>\<open>asyncio.gather(*aws)\<close> with the default \<^verbatim>\<open>return_exceptions=False\<close>: every coroutine
  among the arguments is scheduled as a task at the call; the result is ready when all
  children have returned; the first exception of a child is passed on at once to whoever
  awaits the gather, and the other children are not cancelled and keep running. With no
  argument the future is finished from the start.
\<close>

definition gather :: "outcome list \<Rightarrow> outcome" where
  "gather os =
     (case first_raise os of
        Some (t, e) \<Rightarrow> Raises t e
      | None \<Rightarrow> (case all_returned os of Some m \<Rightarrow> Returns m | None \<Rightarrow> Hangs))"

fun fate_at :: "nat \<Rightarrow> outcome \<Rightarrow> fate" where
  "fate_at t (Returns d) = (if d \<le> t then Done d else StillRunning)"
| "fate_at t (Raises d e) = (if d \<le> t then Done d else StillRunning)"
| "fate_at t Hangs = StillRunning"

fun fate_in_the_end :: "outcome \<Rightarrow> fate" where
  "fate_in_the_end (Returns d) = Done d"
| "fate_in_the_end (Raises d e) = Done d"
| "fate_in_the_end Hangs = StillRunning"

text \<open>
  What has become of the children when the gather is over. Nothing in \<^verbatim>\<open>gather\<close>
  cancels a child because a sibling raised, so no child is ever \<open>Cancelled\<close> here.
\<close>

definition gather_fates :: "outcome list \<Rightarrow> fate list" where
  "gather_fates os =
     (case gather os of
        Returns m \<Rightarrow> map (fate_at m) os
      | Raises t e \<Rightarrow> map (fate_at t) os
      | Hangs \<Rightarrow> map fate_in_the_end os)"

section \<open>The object\<close>

text \<open>
  A command is the future built by \<^verbatim>\<open>wrapper\<close> (lines 68 to 73): the gather of one call
  of the async function, whose task exists from the moment of the call.
\<close>

record command =
  cmd_func :: func
  cmd_started :: nat
  cmd_outcome :: outcome

text \<open>
  The toolkit underneath (\<^verbatim>\<open>customtkinter.CTk\<close>, not part of this repository) is reduced
  to what the loops use: the native events waiting to be processed and whether the main
  window has been destroyed. An event either does nothing to the object, or runs a
  callback bound to a widget.
\<close>

datatype event =
    Redraw
  | Click func outcome
  | AddUpdate func
  | RemoveUpdate func
  | DestroyWindow

record AsyncCTK =
  update_interval :: nat
  update_funcs :: "func list"
  commands_queue :: "command list"
  application_closed :: bool
  window_exists :: bool
  tk_pending :: "event list"
  tk_destroyed :: bool

definition AsyncCTK_init :: "nat \<Rightarrow> AsyncCTK" where
  "AsyncCTK_init interval =
     \<lparr> update_interval = interval,
       update_funcs = [],
       commands_queue = [],
       application_closed = False,
       window_exists = True,
       tk_pending = [],
       tk_destroyed = False \<rparr>"

definition add_update_func :: "AsyncCTK \<Rightarrow> func \<Rightarrow> AsyncCTK" where
  "add_update_func s update_func =
     s\<lparr>update_funcs := list_append (update_funcs s) update_func\<rparr>"

definition remove_update_func :: "AsyncCTK \<Rightarrow> func \<Rightarrow> (py_error + unit) \<times> AsyncCTK" where
  "remove_update_func s update_func =
     (case list_remove (update_funcs s) update_func of
        (r, fs) \<Rightarrow> (r, s\<lparr>update_funcs := fs\<rparr>))"

text \<open>
  \<^verbatim>\<open>execute_async_command(async_func)\<close> returns the closure \<^verbatim>\<open>wrapper\<close>. Calling it at
  time \<open>now\<close> calls \<^verbatim>\<open>async_func()\<close>, hands the coroutine to \<^verbatim>\<open>asyncio.gather\<close>, which
  schedules it as a task there and then, and puts the gather future at the back of the
  queue. \<open>body\<close> is what this call of the async function does.
\<close>

definition wrapper :: "func \<Rightarrow> nat \<Rightarrow> outcome \<Rightarrow> AsyncCTK \<Rightarrow> AsyncCTK" where
  "wrapper async_func now body s =
     (let command = \<lparr> cmd_func = async_func, cmd_started = now, cmd_outcome = gather [body] \<rparr>
      in s\<lparr>commands_queue := commands_queue s @ [command]\<rparr>)"

definition execute_async_command :: "func \<Rightarrow> nat \<Rightarrow> outcome \<Rightarrow> AsyncCTK \<Rightarrow> AsyncCTK" where
  "execute_async_command async_func = wrapper async_func"


section \<open>The three loops\<close>

text \<open>
  Each loop is \<^verbatim>\<open>while True\<close>. A loop is run against a list of inputs, one per iteration:
  what the rest of the program did to the object while the loop was suspended in that
  iteration. When the inputs are used up the loop is still \<open>Running\<close>; the other endings
  are the ways the source leaves the loop: \<^verbatim>\<open>break\<close> (\<open>Exited\<close>), an exception that
  nothing in the loop catches (\<open>Crashed\<close>), or an await that never resumes (\<open>Blocked\<close>).
\<close>

datatype loop_end = Exited | Crashed py_error | Blocked | Running

record 'r run =
  reports :: "'r list"
  ending :: loop_end
  ended_at :: nat
  final :: AsyncCTK

definition prepend :: "'r \<Rightarrow> 'r run \<Rightarrow> 'r run" where
  "prepend r x = x\<lparr>reports := r # reports x\<rparr>"

subsection \<open>Callbacks run by the toolkit\<close>

text \<open>
  A click on a button built with \<^verbatim>\<open>command=self.execute_async_command(f)\<close> calls the
  wrapper. Tkinter reports an exception of a callback and goes on, so a failed
  \<^verbatim>\<open>remove_update_func\<close> in a callback leaves the pump running.
\<close>

fun handle_event :: "nat \<Rightarrow> event \<Rightarrow> AsyncCTK \<Rightarrow> AsyncCTK" where
  "handle_event now Redraw s = s"
| "handle_event now (Click f body) s = execute_async_command f now body s"
| "handle_event now (AddUpdate f) s = add_update_func s f"
| "handle_event now (RemoveUpdate f) s = snd (remove_update_func s f)"
| "handle_event now DestroyWindow s = s\<lparr>tk_destroyed := True\<rparr>"

definition handle_timed :: "(nat \<times> event) list \<Rightarrow> AsyncCTK \<Rightarrow> AsyncCTK" where
  "handle_timed tes s = foldl (\<lambda>s' (t, e). handle_event t e s') s tes"

subsection \<open>The GUI event pump, lines 104 to 120\<close>

text \<open>
  \<^verbatim>\<open>dooneevent(_tkinter.DONT_WAIT)\<close> processes one waiting event and returns 1, or returns
  0 at once when none is waiting. \<^verbatim>\<open>winfo_exists()\<close> raises \<^verbatim>\<open>TclError\<close> once the main
  window is destroyed; its return value is not looked at by the loop.
\<close>

definition dooneevent :: "nat \<Rightarrow> AsyncCTK \<Rightarrow> nat \<times> AsyncCTK" where
  "dooneevent now s =
     (case tk_pending s of
        [] \<Rightarrow> (0, s)
      | e # es \<Rightarrow> (1, handle_event now e (s\<lparr>tk_pending := es\<rparr>)))"

definition winfo_exists :: "AsyncCTK \<Rightarrow> py_error + bool" where
  "winfo_exists s = (if tk_destroyed s then Inl TclError else Inr True)"

lemma handle_event_pending: "tk_pending (handle_event now e s) = tk_pending s"
  by (cases e)
     (simp_all add: execute_async_command_def wrapper_def add_update_func_def
        remove_update_func_def split: prod.splits)

lemma dooneevent_shrinks:
  "dooneevent now s = (r, s') \<Longrightarrow> 0 < r \<Longrightarrow> length (tk_pending s') < length (tk_pending s)"
  by (auto simp: dooneevent_def handle_event_pending split: list.splits)

text \<open>
  Line 112, \<^verbatim>\<open>while self.dooneevent(_tkinter.DONT_WAIT) > 0: pass\<close>. A callback adds no
  native event in this model, so every call with an event waiting leaves one fewer, and
  the loop ends.
\<close>

function drain :: "nat \<Rightarrow> AsyncCTK \<Rightarrow> AsyncCTK" where
  "drain now s = (case dooneevent now s of (r, s') \<Rightarrow> if 0 < r then drain now s' else s')"
  by pat_completeness auto
termination
  by (relation "measure (\<lambda>(now, s). length (tk_pending s))")
     (auto dest: dooneevent_shrinks [OF sym])

declare drain.simps [simp del]

text \<open>
  One input per iteration: the native events that arrived since the pump last ran. The
  report of an iteration is the time at which it began.
\<close>

fun gui_mainloop :: "event list list \<Rightarrow> nat \<Rightarrow> AsyncCTK \<Rightarrow> nat run" where
  "gui_mainloop [] now s = \<lparr>reports = [], ending = Running, ended_at = now, final = s\<rparr>"
| "gui_mainloop (arrived # later) now s =
     (let s1 = drain now (s\<lparr>tk_pending := tk_pending s @ arrived\<rparr>)
      in case winfo_exists s1 of
           Inl e \<Rightarrow>
             (if e = TclError
              then \<lparr>reports = [now], ending = Exited, ended_at = now, final = s1\<rparr>
              else \<lparr>reports = [now], ending = Crashed e, ended_at = now, final = s1\<rparr>)
         | Inr alive \<Rightarrow> prepend now (gui_mainloop later (now + 10) s1))"

subsection \<open>The update scheduler, lines 123 to 143\<close>

text \<open>
  What the call of an update function gives, as far as the scheduler can tell. The
  coroutine starts as a task; \<open>holds\<close> is the time for which its first step keeps the event
  loop to itself (0 for a coroutine that reaches an \<^verbatim>\<open>await\<close> at once); \<open>natural\<close> is what
  it does from the end of that step if it is left alone, \<open>Returns 0\<close> and \<open>Raises 0 e\<close>
  meaning that it ends in its first step; \<open>on_cancel\<close> is what it does from the moment it
  is cancelled: \<open>Raises c CancelledError\<close> ends cancelled after \<open>c\<close> ms of cleanup,
  \<open>Returns c\<close> swallows the cancellation, another exception is a cleanup that fails. A
  coroutine that keeps the loop to itself again after it has been suspended is not
  described by this.
\<close>

record coroutine =
  holds :: nat
  natural :: outcome
  on_cancel :: outcome


text \<open>
  \<^verbatim>\<open>asyncio.gather(*coroutines)\<close> makes the tasks in the order of the list, and the event
  loop runs their first steps in that order, one after the other, before it runs the first
  steps of \<^verbatim>\<open>wait_for\<close> and \<^verbatim>\<open>sleep\<close>. \<open>first_steps\<close> gives the time at which each first
  step ends, and \<open>busy_until\<close> the time at which the last one does: only then are the
  timers of \<^verbatim>\<open>wait_for\<close> and \<^verbatim>\<open>sleep\<close> set, and only from then on does the loop notice
  that a task has ended. Times are counted from the start of the cycle.
\<close>

fun first_steps :: "nat \<Rightarrow> coroutine list \<Rightarrow> nat list" where
  "first_steps t [] = []"
| "first_steps t (c # cs) = (t + holds c) # first_steps (t + holds c) cs"

definition busy_until :: "coroutine list \<Rightarrow> nat" where
  "busy_until cs = sum_list (map holds cs)"

definition task_outcomes :: "coroutine list \<Rightarrow> outcome list" where
  "task_outcomes cs =
     map (\<lambda>(t, c). not_before (busy_until cs) (delayed t (natural c))) (zip (first_steps 0 cs) cs)"

text \<open>
  A gather that is cancelled cancels every child that has not ended. Its own end comes
  with the first of those children to end cancelled or with an exception, whose exception
  it takes; when every child swallows the cancellation and returns, it ends cancelled when
  the last one has returned.
\<close>

definition still_running :: "nat \<Rightarrow> coroutine list \<Rightarrow> coroutine list" where
  "still_running deadline cs =
     map snd (filter (\<lambda>(a, c). pending_at deadline a) (zip (task_outcomes cs) cs))"

definition cancel_responses :: "nat \<Rightarrow> coroutine list \<Rightarrow> outcome list" where
  "cancel_responses deadline cs =
     map (\<lambda>c. delayed deadline (on_cancel c)) (still_running deadline cs)"

definition cancelled_gather :: "nat \<Rightarrow> coroutine list \<Rightarrow> outcome" where
  "cancelled_gather deadline cs =
     (case first_raise (cancel_responses deadline cs) of
        Some (t, e) \<Rightarrow> Raises t e
      | None \<Rightarrow>
          (case all_returned (cancel_responses deadline cs) of
             Some m \<Rightarrow> Raises m CancelledError
           | None \<Rightarrow> Hangs))"

text \<open>
  \<^verbatim>\<open>asyncio.wait_for(asyncio.gather(*coroutines), timeout)\<close>, as line 135 has it, for a
  positive timeout. The gather of no coroutine is finished from the start and its result
  is returned. Otherwise the timer is set in the first step of \<^verbatim>\<open>wait_for\<close>, that is at
  \<open>busy_until\<close>; a gather that has ended when the timer fires gives its result or its
  exception; one that has not is cancelled, \<^verbatim>\<open>wait_for\<close> waits until the cancelled gather
  has ended, and then raises \<^verbatim>\<open>TimeoutError\<close> if the gather ended cancelled, and the
  gather's exception otherwise. (For a timeout of 0 \<^verbatim>\<open>wait_for\<close> sets no timer and cancels
  what has not ended in its first step; the statements below are about positive
  intervals.)
\<close>

definition wait_for :: "coroutine list \<Rightarrow> nat \<Rightarrow> outcome" where
  "wait_for cs timeout =
     (let fut = gather (task_outcomes cs);
          deadline = busy_until cs + timeout
      in if cs = [] then fut
         else if \<not> pending_at deadline fut then fut
         else (case cancelled_gather deadline cs of
                 Raises t e \<Rightarrow> if e = CancelledError then Raises t TimeoutError else Raises t e
               | Returns t \<Rightarrow> Returns t
               | Hangs \<Rightarrow> Hangs))"

text \<open>
  The warning printed at lines 139 and 140 carries the interval. The input of a cycle is
  what the call of each update function gives in that cycle, and the events the pump
  processed, with their times, while the cycle was awaited. The report of a cycle is the
  time it started, the update functions called at line 131, what was printed, the update
  functions whose tasks were cancelled, and how long the await of lines 134 to 137 took.
\<close>

datatype message = OverrunWarning nat

record cycle_env =
  behaviour :: "func \<Rightarrow> coroutine"
  during :: "(nat \<times> event) list"

record cycle_report =
  started :: nat
  invoked :: "func list"
  printed :: "message list"
  cancelled :: "func list"
  elapsed :: nat

datatype cycle_end = Proceed | Raise py_error | Stuck

text \<open>
  Lines 134 to 137: the awaited expression, for the coroutines made at line 131. The
  sleep is set in its own first step, which comes after that of \<^verbatim>\<open>wait_for\<close>.
\<close>

definition update_cycle :: "nat \<Rightarrow> coroutine list \<Rightarrow> outcome" where
  "update_cycle interval coroutines =
     gather [wait_for coroutines interval, delayed (busy_until coroutines) (sleep interval)]"

text \<open>
  When \<^verbatim>\<open>wait_for\<close> times out it cancels its gather, and a cancelled gather cancels
  every child that has not ended. The update functions cancelled in a cycle are those
  whose tasks end so.
\<close>

definition timeout_fates :: "nat \<Rightarrow> outcome list \<Rightarrow> fate list" where
  "timeout_fates timeout tasks =
     map (\<lambda>b. if pending_at timeout b then Cancelled timeout else fate_at timeout b) tasks"

definition cancelled_by_timeout :: "nat \<Rightarrow> func list \<Rightarrow> coroutine list \<Rightarrow> func list" where
  "cancelled_by_timeout interval funcs coroutines =
     (let deadline = busy_until coroutines + interval
      in if coroutines \<noteq> [] \<and> pending_at deadline (gather (task_outcomes coroutines))
         then map fst (filter (\<lambda>(f, x). x = Cancelled deadline)
                (zip funcs (timeout_fates deadline (task_outcomes coroutines))))
         else [])"

text \<open>
  Lines 131 to 140. A \<^verbatim>\<open>TimeoutError\<close> is caught and reported, whoever raised it; any
  other exception leaves the loop. Tasks are cancelled only by a \<^verbatim>\<open>wait_for\<close> that times
  out, also when the cancelled gather then ends with another exception or never ends.
\<close>

definition run_cycle :: "cycle_env \<Rightarrow> nat \<Rightarrow> AsyncCTK \<Rightarrow> cycle_report \<times> cycle_end" where
  "run_cycle env now s =
     (let funcs = update_funcs s;
          coroutines = map (behaviour env) funcs;
          interval = update_interval s
      in case update_cycle interval coroutines of
           Returns d \<Rightarrow>
             (\<lparr>started = now, invoked = funcs, printed = [], cancelled = [], elapsed = d\<rparr>,
              Proceed)
         | Raises d e \<Rightarrow>
             (if e = TimeoutError
              then (\<lparr>started = now, invoked = funcs, printed = [OverrunWarning interval],
                     cancelled = cancelled_by_timeout interval funcs coroutines,
                     elapsed = d\<rparr>, Proceed)
              else (\<lparr>started = now, invoked = funcs, printed = [],
                     cancelled = cancelled_by_timeout interval funcs coroutines,
                     elapsed = d\<rparr>, Raise e))
         | Hangs \<Rightarrow>
             (\<lparr>started = now, invoked = funcs, printed = [],
               cancelled = cancelled_by_timeout interval funcs coroutines, elapsed = 0\<rparr>,
              Stuck))"

text \<open>
  The loop: a cycle, then the check of \<^verbatim>\<open>_application_closed\<close> at lines 142 and 143,
  on the object as the events of the cycle left it.
\<close>

fun update_func_mainloop :: "cycle_env list \<Rightarrow> nat \<Rightarrow> AsyncCTK \<Rightarrow> cycle_report run" where
  "update_func_mainloop [] now s =
     \<lparr>reports = [], ending = Running, ended_at = now, final = s\<rparr>"
| "update_func_mainloop (env # envs) now s =
     (case run_cycle env now s of
        (r, Proceed) \<Rightarrow>
          (let s' = handle_timed (during env) s
           in if application_closed s'
              then \<lparr>reports = [r], ending = Exited, ended_at = now + elapsed r, final = s'\<rparr>
              else prepend r (update_func_mainloop envs (now + elapsed r) s'))
      | (r, Raise e) \<Rightarrow>
          \<lparr>reports = [r], ending = Crashed e, ended_at = now + elapsed r,
           final = handle_timed (during env) s\<rparr>
      | (r, Stuck) \<Rightarrow>
          \<lparr>reports = [r], ending = Blocked, ended_at = now,
           final = handle_timed (during env) s\<rparr>)"

subsection \<open>The command dispatcher, lines 94 to 102\<close>

text \<open>
  Awaiting a command at time \<open>now\<close>: its task has been running since the command was
  made, so the await resumes when the task finishes, or at once if it has finished.
\<close>

definition await :: "nat \<Rightarrow> command \<Rightarrow> outcome" where
  "await now c =
     (case cmd_outcome c of
        Returns d \<Rightarrow> Returns (max now (cmd_started c + d))
      | Raises d e \<Rightarrow> Raises (max now (cmd_started c + d)) e
      | Hangs \<Rightarrow> Hangs)"

text \<open>
  One input per iteration: the events the pump processed, with their times, while the
  dispatcher was suspended in it. The report of an iteration that took a command is the
  time it was taken and the command. After a command, and when the queue is empty, the
  dispatcher sleeps 100 ms.
\<close>

fun command_mainloop :: "(nat \<times> event) list list \<Rightarrow> nat \<Rightarrow> AsyncCTK \<Rightarrow> (nat \<times> command) run" where
  "command_mainloop [] now s =
     \<lparr>reports = [], ending = Running, ended_at = now, final = s\<rparr>"
| "command_mainloop (meanwhile # later) now s =
     (case commands_queue s of
        [] \<Rightarrow> command_mainloop later (now + 100) (handle_timed meanwhile s)
      | command # rest \<Rightarrow>
          (case await now command of
             Returns t \<Rightarrow>
               prepend (now, command)
                 (command_mainloop later (t + 100)
                    (handle_timed meanwhile (s\<lparr>commands_queue := rest\<rparr>)))
           | Raises t e \<Rightarrow>
               \<lparr>reports = [(now, command)], ending = Crashed e, ended_at = t,
                final = handle_timed meanwhile (s\<lparr>commands_queue := rest\<rparr>)\<rparr>
           | Hangs \<Rightarrow>
               \<lparr>reports = [(now, command)], ending = Blocked, ended_at = now,
                final = handle_timed meanwhile (s\<lparr>commands_queue := rest\<rparr>)\<rparr>))"

subsection \<open>The orchestrator, lines 78 to 91\<close>

text \<open>
  \<^verbatim>\<open>mainloop\<close> awaits the gather of the three loops, each given by what it does when
  run: the pump, the update scheduler, the dispatcher, in that order.
\<close>

definition mainloop :: "outcome \<Rightarrow> outcome \<Rightarrow> outcome \<Rightarrow> outcome" where
  "mainloop gui update cmd = gather [gui, update, cmd]"

definition mainloop_fates :: "outcome \<Rightarrow> outcome \<Rightarrow> outcome \<Rightarrow> fate list" where
  "mainloop_fates gui update cmd = gather_fates [gui, update, cmd]"


section \<open>Auxiliary notions for the statements\<close>





text \<open>Processing a list of events in order, all at the same time.\<close>

definition handle_all :: "nat \<Rightarrow> event list \<Rightarrow> AsyncCTK \<Rightarrow> AsyncCTK" where
  "handle_all now es s = foldl (\<lambda>s' e. handle_event now e s') s es"

section \<open>The update registry\<close>

lemma list_index_None: "list_index xs x = None \<longleftrightarrow> x \<notin> set xs"
  by (induction xs) (auto split: option.splits)

lemma list_index_Some:
  "list_index xs x = Some i \<Longrightarrow> i < length xs \<and> xs ! i = x \<and> x \<notin> set (take i xs)"
proof (induction xs arbitrary: i)
  case Nil
  then show ?case by simp
next
  case (Cons y ys)
  show ?case
  proof (cases "y = x")
    case True
    with Cons.prems show ?thesis by simp
  next
    case False
    with Cons.prems obtain j where j: "list_index ys x = Some j" "i = Suc j"
      by (auto split: option.splits)
    from Cons.IH [OF j(1)] False j(2) show ?thesis by simp
  qed
qed

lemma list_remove_present:
  assumes "x \<in> set xs"
  shows "\<exists>before after. xs = before @ x # after \<and> x \<notin> set before \<and>
           list_remove xs x = (Inr (), before @ after)"
proof -
  from assms obtain i where i: "list_index xs x = Some i"
    using list_index_None [of xs x] by (cases "list_index xs x") auto
  from list_index_Some [OF i] have lt: "i < length xs" and at: "xs ! i = x"
    and fresh: "x \<notin> set (take i xs)" by simp_all
  have "xs = take i xs @ x # drop (Suc i) xs"
    using id_take_nth_drop [OF lt] by (simp only: at)
  moreover have "list_remove xs x = (Inr (), take i xs @ drop (Suc i) xs)"
    by (simp add: list_remove_def i)
  ultimately show ?thesis using fresh by blast
qed

lemma list_remove_absent: "x \<notin> set xs \<Longrightarrow> list_remove xs x = (Inl ValueError, xs)"
  using list_index_None [of xs x] by (simp add: list_remove_def)

text \<open>
  Claim C7. \<^verbatim>\<open>add_update_func\<close> puts the function at the end of the registry, whatever
  the registry holds (so a function can be registered twice). When the function is in
  the registry, \<^verbatim>\<open>remove_update_func\<close> succeeds and takes out one entry, the first that
  equals the function: the entries before it and after it stay as they were, in their
  order, later duplicates included.
\<close>

theorem registry_add_remove:
  "update_funcs (add_update_func s f) = update_funcs s @ [f] \<and>
   (f \<in> set (update_funcs s) \<longrightarrow>
     (\<exists>before after. update_funcs s = before @ f # after \<and> f \<notin> set before \<and>
        remove_update_func s f = (Inr (), s\<lparr>update_funcs := before @ after\<rparr>)))"
proof (intro conjI impI)
  show "update_funcs (add_update_func s f) = update_funcs s @ [f]"
    by (simp add: add_update_func_def list_append_def)
next
  assume "f \<in> set (update_funcs s)"
  from list_remove_present [OF this] obtain before after where
    "update_funcs s = before @ f # after" "f \<notin> set before"
    "list_remove (update_funcs s) f = (Inr (), before @ after)" by blast
  then show "\<exists>before after. update_funcs s = before @ f # after \<and> f \<notin> set before \<and>
        remove_update_func s f = (Inr (), s\<lparr>update_funcs := before @ after\<rparr>)"
    by (auto simp: remove_update_func_def)
qed

theorem registry_add_remove_witness:
  "update_funcs (add_update_func (AsyncCTK_init 1000\<lparr>update_funcs := [1, 2, 1, 3]\<rparr>) 2) = [1, 2, 1, 3, 2] \<and>
   remove_update_func (AsyncCTK_init 1000\<lparr>update_funcs := [1, 2, 1, 3, 2]\<rparr>) 2
     = (Inr (), AsyncCTK_init 1000\<lparr>update_funcs := [1, 1, 3, 2]\<rparr>)"
proof -
  let ?s = "AsyncCTK_init 1000\<lparr>update_funcs := [1, 2, 1, 3, 2]\<rparr>"
  from registry_add_remove [of "AsyncCTK_init 1000\<lparr>update_funcs := [1, 2, 1, 3]\<rparr>" 2]
  have a: "update_funcs (add_update_func (AsyncCTK_init 1000\<lparr>update_funcs := [1, 2, 1, 3]\<rparr>) 2) = [1, 2, 1, 3, 2]"
    by simp
  from registry_add_remove [of ?s 2] obtain before after where
    split: "[1, 2, 1, 3, 2] = before @ (2::nat) # after" and fresh: "2 \<notin> set before"
    and r: "remove_update_func ?s 2 = (Inr (), ?s\<lparr>update_funcs := before @ after\<rparr>)"
    by auto
  from split fresh have "before = [1] \<and> after = [1, 3, 2]"
    by (auto simp: append_eq_Cons_conv Cons_eq_append_conv)
  with r a show ?thesis by simp
qed

text \<open>
  Claim C10. Removing a function that is not in the registry raises \<^verbatim>\<open>ValueError\<close>
  (from \<^verbatim>\<open>list.remove\<close>), and the object, its registry included, is as it was before
  the call.
\<close>

theorem remove_unregistered_raises:
  "f \<notin> set (update_funcs s) \<Longrightarrow> remove_update_func s f = (Inl ValueError, s)"
  by (simp add: remove_update_func_def list_remove_absent)

theorem remove_unregistered_raises_witness:
  "(7::nat) \<notin> set (update_funcs (AsyncCTK_init 1000\<lparr>update_funcs := [1, 2]\<rparr>)) \<and>
   remove_update_func (AsyncCTK_init 1000\<lparr>update_funcs := [1, 2]\<rparr>) 7
     = (Inl ValueError, AsyncCTK_init 1000\<lparr>update_funcs := [1, 2]\<rparr>)"
proof -
  have h: "(7::nat) \<notin> set (update_funcs (AsyncCTK_init 1000\<lparr>update_funcs := [1, 2]\<rparr>))"
    by simp
  from remove_unregistered_raises [OF h] h show ?thesis by simp
qed

section \<open>The termination signal\<close>

lemma handle_event_closed: "application_closed (handle_event now e s) = application_closed s"
  by (cases e)
     (simp_all add: execute_async_command_def wrapper_def add_update_func_def
        remove_update_func_def split: prod.splits)

lemma handle_timed_Nil: "handle_timed [] s = s"
  by (simp add: handle_timed_def)

lemma handle_timed_Cons: "handle_timed ((t, e) # tes) s = handle_timed tes (handle_event t e s)"
  by (simp add: handle_timed_def)

lemma handle_timed_closed: "application_closed (handle_timed tes s) = application_closed s"
proof (induction tes arbitrary: s)
  case Nil
  show ?case by (simp only: handle_timed_Nil)
next
  case (Cons te tes)
  obtain t e where te: "te = (t, e)" by (cases te)
  show ?case
    by (simp only: te handle_timed_Cons Cons.IH handle_event_closed)
qed

lemma final_prepend: "final (prepend r x) = final x"
  by (simp add: prepend_def)

lemma ending_prepend: "ending (prepend r x) = ending x"
  by (simp add: prepend_def)

lemma reports_prepend: "reports (prepend r x) = r # reports x"
  by (simp add: prepend_def)

lemma update_func_mainloop_closed:
  "application_closed (final (update_func_mainloop envs now s)) = application_closed s"
proof (induction envs arbitrary: now s)
  case Nil
  show ?case by simp
next
  case (Cons env envs)
  obtain r ce where rc: "run_cycle env now s = (r, ce)" by (cases "run_cycle env now s")
  show ?case
  proof (cases ce)
    case Proceed
    show ?thesis
    proof (cases "application_closed (handle_timed (during env) s)")
      case True
      with rc Proceed show ?thesis by (simp add: handle_timed_closed)
    next
      case False
      with rc Proceed Cons.IH [of "now + elapsed r" "handle_timed (during env) s"]
      show ?thesis by (simp add: final_prepend handle_timed_closed)
    qed
  next
    case (Raise e)
    with rc show ?thesis by (simp add: handle_timed_closed)
  next
    case Stuck
    with rc show ?thesis by (simp add: handle_timed_closed)
  qed
qed


lemma dooneevent_closed:
  "dooneevent now s = (r, s') \<Longrightarrow> application_closed s' = application_closed s"
  by (auto simp: dooneevent_def handle_event_closed split: list.splits)

lemma drain_closed: "application_closed (drain now s) = application_closed s"
proof (induction now s rule: drain.induct)
  case (1 now s)
  obtain r s' where d: "dooneevent now s = (r, s')" by (cases "dooneevent now s")
  have unfold: "drain now s = (if 0 < r then drain now s' else s')"
    by (subst drain.simps) (simp only: d prod.case)
  show ?case
  proof (cases "0 < r")
    case True
    from "1.IH" [OF d [symmetric] True] have "application_closed (drain now s') = application_closed s'" .
    with dooneevent_closed [OF d] unfold True show ?thesis by (simp only: if_True)
  next
    case False
    with dooneevent_closed [OF d] unfold show ?thesis by (simp only: if_False)
  qed
qed

lemma gui_mainloop_step:
  "gui_mainloop (arrived # later) now s =
     (if tk_destroyed (drain now (s\<lparr>tk_pending := tk_pending s @ arrived\<rparr>))
      then \<lparr>reports = [now], ending = Exited, ended_at = now,
            final = drain now (s\<lparr>tk_pending := tk_pending s @ arrived\<rparr>)\<rparr>
      else prepend now (gui_mainloop later (now + 10)
             (drain now (s\<lparr>tk_pending := tk_pending s @ arrived\<rparr>))))"
  by (simp add: Let_def winfo_exists_def)

lemma gui_mainloop_closed:
  "application_closed (final (gui_mainloop arrivals now s)) = application_closed s"
proof (induction arrivals arbitrary: now s)
  case Nil
  show ?case by simp
next
  case (Cons arrived later)
  let ?s1 = "drain now (s\<lparr>tk_pending := tk_pending s @ arrived\<rparr>)"
  have s1: "application_closed ?s1 = application_closed s"
    by (simp add: drain_closed)
  show ?case
  proof (cases "tk_destroyed ?s1")
    case True
    then show ?thesis by (simp only: gui_mainloop_step if_True run.simps s1)
  next
    case False
    then show ?thesis
      by (simp only: gui_mainloop_step if_False final_prepend Cons.IH s1)
  qed
qed

lemma command_mainloop_closed:
  "application_closed (final (command_mainloop inputs now s)) = application_closed s"
proof (induction inputs arbitrary: now s)
  case Nil
  show ?case by simp
next
  case (Cons meanwhile later)
  show ?case
  proof (cases "commands_queue s")
    case Nil
    then show ?thesis by (simp add: Cons.IH handle_timed_closed)
  next
    case (Cons command rest)
    then show ?thesis
      by (cases "await now command")
         (simp_all add: Cons.IH final_prepend handle_timed_closed)
  qed
qed

lemma update_func_mainloop_no_exit:
  "\<not> application_closed s \<Longrightarrow> ending (update_func_mainloop envs now s) \<noteq> Exited"
proof (induction envs arbitrary: now s)
  case Nil
  show ?case by simp
next
  case (Cons env envs)
  obtain r ce where rc: "run_cycle env now s = (r, ce)" by (cases "run_cycle env now s")
  from Cons.prems have open': "\<not> application_closed (handle_timed (during env) s)"
    by (simp add: handle_timed_closed)
  show ?case
  proof (cases ce)
    case Proceed
    with rc open' Cons.IH [OF open', of "now + elapsed r"]
    show ?thesis by (simp add: ending_prepend)
  next
    case (Raise e)
    with rc show ?thesis by simp
  next
    case Stuck
    with rc show ?thesis by simp
  qed
qed

text \<open>
  Claim C5. The flag \<^verbatim>\<open>_application_closed\<close> is \<^verbatim>\<open>False\<close> after construction, and no
  public operation (\<^verbatim>\<open>add_update_func\<close>, \<^verbatim>\<open>remove_update_func\<close>, a callback made by
  \<^verbatim>\<open>execute_async_command\<close>) and none of the three loops changes it. So, started on an
  object that has only been constructed and used through these, the update scheduler
  never leaves its loop through the check at lines 142 and 143, however many cycles
  it runs.
\<close>

theorem termination_signal_never_set:
  "\<not> application_closed (AsyncCTK_init interval) \<and>
   application_closed (add_update_func s f) = application_closed s \<and>
   application_closed (snd (remove_update_func s f)) = application_closed s \<and>
   application_closed (execute_async_command f now body s) = application_closed s \<and>
   application_closed (final (gui_mainloop arrivals now s)) = application_closed s \<and>
   application_closed (final (command_mainloop inputs now s)) = application_closed s \<and>
   application_closed (final (update_func_mainloop envs now s)) = application_closed s \<and>
   ending (update_func_mainloop envs now (handle_timed tes (AsyncCTK_init interval))) \<noteq> Exited"
proof -
  have init: "\<not> application_closed (AsyncCTK_init interval)"
    by (simp add: AsyncCTK_init_def)
  then have "\<not> application_closed (handle_timed tes (AsyncCTK_init interval))"
    by (simp only: handle_timed_closed not_False_eq_True)
  from update_func_mainloop_no_exit [OF this]
  have loop: "ending (update_func_mainloop envs now (handle_timed tes (AsyncCTK_init interval))) \<noteq> Exited" .
  have add: "application_closed (add_update_func s f) = application_closed s"
    using handle_event_closed [of now "AddUpdate f" s] by simp
  have remove: "application_closed (snd (remove_update_func s f)) = application_closed s"
    using handle_event_closed [of now "RemoveUpdate f" s] by simp
  have submit: "application_closed (execute_async_command f now body s) = application_closed s"
    using handle_event_closed [of now "Click f body" s] by simp
  from init add remove submit loop show ?thesis
    using gui_mainloop_closed [of arrivals now s] command_mainloop_closed [of inputs now s]
      update_func_mainloop_closed [of envs now s]
    by blast
qed

section \<open>Facts about gather and the scheduler loop\<close>

lemma first_raise_mem: "first_raise os = Some (t, e) \<Longrightarrow> Raises t e \<in> set os"
proof (induction os arbitrary: t e)
  case Nil
  then show ?case by simp
next
  case (Cons b os)
  show ?case
  proof (cases b)
    case (Returns d)
    with Cons show ?thesis by simp
  next
    case Hangs
    with Cons show ?thesis by simp
  next
    case (Raises d x)
    show ?thesis
    proof (cases "first_raise os")
      case None
      with Cons.prems Raises show ?thesis by simp
    next
      case (Some p)
      obtain t' e' where p: "p = (t', e')" by (cases p)
      from Cons.IH [of t' e'] Some p have "Raises t' e' \<in> set os" by simp
      with Cons.prems Raises Some p show ?thesis by (auto split: if_splits)
    qed
  qed
qed

lemma first_raise_None: "first_raise os = None \<longleftrightarrow> (\<forall>t e. Raises t e \<notin> set os)"
proof (induction os)
  case Nil
  show ?case by simp
next
  case (Cons b os)
  then show ?case
    by (cases b) (auto split: option.splits)
qed

lemma first_raise_least:
  "first_raise os = Some (t, e) \<Longrightarrow> Raises t' e' \<in> set os \<Longrightarrow> t \<le> t'"
proof (induction os arbitrary: t e)
  case Nil
  then show ?case by simp
next
  case (Cons b os)
  show ?case
  proof (cases b)
    case (Returns d)
    with Cons show ?thesis by auto
  next
    case Hangs
    with Cons show ?thesis by auto
  next
    case (Raises d x)
    show ?thesis
    proof (cases "first_raise os")
      case None
      have "Raises t' e' \<notin> set os"
        using None first_raise_None [of os] by simp
      with Cons.prems Raises None show ?thesis by auto
    next
      case (Some p)
      obtain t2 e2 where p: "p = (t2, e2)" by (cases p)
      have ih: "Raises t' e' \<in> set os \<Longrightarrow> t2 \<le> t'"
        using Cons.IH [of t2 e2] Some p by simp
      from Cons.prems Raises Some p ih show ?thesis
        by (auto split: if_splits)
    qed
  qed
qed




lemma fate_at_not_cancelled: "fate_at t b \<noteq> Cancelled t'"
  by (cases b) simp_all







section \<open>The update scheduler: deadline and floor\<close>






































section \<open>The update scheduler: the snapshot of the registry\<close>





section \<open>The orchestrator\<close>

lemma fate_in_the_end_not_cancelled: "fate_in_the_end b \<noteq> Cancelled t'"
  by (cases b) simp_all

lemma map_fate_at_not_cancelled: "Cancelled t' \<notin> set (map (fate_at t) os)"
proof
  assume "Cancelled t' \<in> set (map (fate_at t) os)"
  then obtain b where "fate_at t b = Cancelled t'" by auto
  with fate_at_not_cancelled show False by blast
qed

lemma map_fate_in_the_end_not_cancelled: "Cancelled t' \<notin> set (map fate_in_the_end os)"
proof
  assume "Cancelled t' \<in> set (map fate_in_the_end os)"
  then obtain b where "fate_in_the_end b = Cancelled t'" by auto
  with fate_in_the_end_not_cancelled show False by blast
qed

lemma gather_fates_not_cancelled: "Cancelled t \<notin> set (gather_fates os)"
  by (cases "gather os")
     (simp_all only: gather_fates_def outcome.case map_fate_at_not_cancelled
        map_fate_in_the_end_not_cancelled not_False_eq_True)

lemma gather_Returns_iff:
  "gather os = Returns m \<longleftrightarrow> first_raise os = None \<and> all_returned os = Some m"
  by (auto simp: gather_def split: option.splits)

lemma gather_Raises_iff: "gather os = Raises t e \<longleftrightarrow> first_raise os = Some (t, e)"
  by (auto simp: gather_def split: option.splits)

lemma all_returned3:
  "all_returned [g, u, c] = Some m \<longleftrightarrow>
     (\<exists>a b d. g = Returns a \<and> u = Returns b \<and> c = Returns d \<and> m = max a (max b d))"
  by (cases g; cases u; cases c) auto

text \<open>
  Claim C4, as amended. \<^verbatim>\<open>mainloop\<close> is the one entry point: it awaits the gather of
  the pump, the update scheduler and the dispatcher, started together on the one event
  loop. It returns exactly when all three have returned, at the time the last one does.
  When one of them raises, \<^verbatim>\<open>mainloop\<close> raises at once: the exception is the earliest one
  raised by a loop. The gather does not cancel the other loops: whatever the three loops
  do, none of them is cancelled by \<^verbatim>\<open>mainloop\<close>, and one that has not finished is still
  running.
\<close>

theorem mainloop_completion:
  "(mainloop g u c = Returns t \<longleftrightarrow>
      (\<exists>a b d. g = Returns a \<and> u = Returns b \<and> c = Returns d \<and> t = max a (max b d))) \<and>
   (mainloop g u c = Raises t e \<longrightarrow>
      Raises t e \<in> set [g, u, c] \<and> (\<forall>t' e'. Raises t' e' \<in> set [g, u, c] \<longrightarrow> t \<le> t')) \<and>
   ((\<exists>t e. Raises t e \<in> set [g, u, c]) \<longrightarrow> (\<exists>t e. mainloop g u c = Raises t e)) \<and>
   (\<forall>t. Cancelled t \<notin> set (mainloop_fates g u c))"
proof (intro conjI)
  show "mainloop g u c = Returns t \<longleftrightarrow>
      (\<exists>a b d. g = Returns a \<and> u = Returns b \<and> c = Returns d \<and> t = max a (max b d))"
  proof
    assume "mainloop g u c = Returns t"
    then have "all_returned [g, u, c] = Some t"
      by (simp add: mainloop_def gather_Returns_iff)
    then show "\<exists>a b d. g = Returns a \<and> u = Returns b \<and> c = Returns d \<and> t = max a (max b d)"
      by (simp only: all_returned3)
  next
    assume "\<exists>a b d. g = Returns a \<and> u = Returns b \<and> c = Returns d \<and> t = max a (max b d)"
    then obtain a b d where "g = Returns a" "u = Returns b" "c = Returns d" "t = max a (max b d)"
      by blast
    then show "mainloop g u c = Returns t"
      by (simp add: mainloop_def gather_def)
  qed
next
  show "mainloop g u c = Raises t e \<longrightarrow>
      Raises t e \<in> set [g, u, c] \<and> (\<forall>t' e'. Raises t' e' \<in> set [g, u, c] \<longrightarrow> t \<le> t')"
  proof
    assume "mainloop g u c = Raises t e"
    then have fr: "first_raise [g, u, c] = Some (t, e)"
      by (simp only: mainloop_def gather_Raises_iff)
    from first_raise_mem [OF fr] first_raise_least [OF fr]
    show "Raises t e \<in> set [g, u, c] \<and> (\<forall>t' e'. Raises t' e' \<in> set [g, u, c] \<longrightarrow> t \<le> t')"
      by blast
  qed
next
  show "(\<exists>t e. Raises t e \<in> set [g, u, c]) \<longrightarrow> (\<exists>t e. mainloop g u c = Raises t e)"
  proof
    assume "\<exists>t e. Raises t e \<in> set [g, u, c]"
    then have "first_raise [g, u, c] \<noteq> None"
      by (simp only: first_raise_None) blast
    then obtain t e where "first_raise [g, u, c] = Some (t, e)" by auto
    then have "mainloop g u c = Raises t e"
      by (simp only: mainloop_def gather_Raises_iff)
    then show "\<exists>t e. mainloop g u c = Raises t e" by blast
  qed
next
  show "\<forall>t. Cancelled t \<notin> set (mainloop_fates g u c)"
    by (simp only: mainloop_fates_def gather_fates_not_cancelled simp_thms)
qed

theorem mainloop_completion_witness:
  "mainloop (Returns 50) (Returns 70) (Returns 60) = Returns 70 \<and>
   mainloop (Returns 50) (Raises 4000 ValueError) (Raises 3000 TclError) = Raises 3000 TclError \<and>
   Raises 3000 TclError \<in> set [Returns 50, Raises 4000 ValueError, Raises 3000 TclError]"
proof -
  have "\<exists>a b d. Returns 50 = Returns a \<and> Returns 70 = Returns b \<and> Returns 60 = Returns d \<and>
          (70::nat) = max a (max b d)"
    by simp
  with mainloop_completion [of "Returns 50" "Returns 70" "Returns 60" 70]
  have a: "mainloop (Returns 50) (Returns 70) (Returns 60) = Returns 70" by blast
  have b: "mainloop (Returns 50) (Raises 4000 ValueError) (Raises 3000 TclError) = Raises 3000 TclError"
    by (simp add: mainloop_def gather_def)
  with mainloop_completion [of "Returns 50" "Raises 4000 ValueError" "Raises 3000 TclError" 3000 TclError]
  have "Raises 3000 TclError \<in> set [Returns 50, Raises 4000 ValueError, Raises 3000 TclError]"
    by blast
  with a b show ?thesis by blast
qed

text \<open>
  Claim C4 as written fails in its cancelling: the window is destroyed after 50 ms (the
  pump returns), the update scheduler runs on, and a command raises after 3000 ms.
  \<^verbatim>\<open>mainloop\<close> raises then, and the update scheduler is still running, not cancelled.
\<close>

theorem mainloop_cancels_claim_counterexample:
  "mainloop (Returns 50) Hangs (Raises 3000 ValueError) = Raises 3000 ValueError \<and>
   mainloop_fates (Returns 50) Hangs (Raises 3000 ValueError) = [Done 50, StillRunning, Done 3000]"
  by (simp add: mainloop_def mainloop_fates_def gather_fates_def gather_def)

section \<open>The command dispatcher\<close>

lemma handle_event_queue:
  "\<exists>new. commands_queue (handle_event t e s) = commands_queue s @ new"
  by (cases e)
     (simp_all add: execute_async_command_def wrapper_def add_update_func_def
        remove_update_func_def split: prod.splits)

lemma handle_timed_queue:
  "\<exists>new. commands_queue (handle_timed tes s) = commands_queue s @ new"
proof (induction tes arbitrary: s)
  case Nil
  show ?case by (simp add: handle_timed_Nil)
next
  case (Cons te tes)
  obtain t e where te: "te = (t, e)" by (cases te)
  from handle_event_queue [of t e s] obtain n1 where
    n1: "commands_queue (handle_event t e s) = commands_queue s @ n1" by blast
  from Cons.IH [of "handle_event t e s"] obtain n2 where
    n2: "commands_queue (handle_timed tes (handle_event t e s)) =
           commands_queue (handle_event t e s) @ n2" by blast
  have "commands_queue (handle_timed (te # tes) s) = commands_queue s @ (n1 @ n2)"
    by (simp only: te handle_timed_Cons n2 n1 append_assoc)
  then show ?case by blast
qed

text \<open>
  Claim C9. The dispatcher takes the commands from the front of the queue, one per
  iteration, and awaits each. When the commands in front of a command return and that
  command's execution raises, the await of that command raises the same exception in
  the dispatcher; nothing in the loop catches it (a \<^verbatim>\<open>TimeoutError\<close> no more than any
  other), so the loop ends with that exception, and the commands behind are never taken
  from the queue.
\<close>

theorem command_error_propagates:
  assumes "commands_queue s = pre @ c # rest"
    and "\<forall>p \<in> set pre. \<exists>d. cmd_outcome p = Returns d"
    and "cmd_outcome c = Raises d e"
    and "length pre < length inputs"
  shows "ending (command_mainloop inputs now s) = Crashed e \<and>
         map snd (reports (command_mainloop inputs now s)) = pre @ [c]"
  using assms
proof (induction pre arbitrary: s inputs now rest)
  case Nil
  from Nil.prems(4) obtain meanwhile later where inputs: "inputs = meanwhile # later"
    by (cases inputs) auto
  from Nil.prems(1) have q: "commands_queue s = c # rest" by simp
  from Nil.prems(3) have aw: "await now c = Raises (max now (cmd_started c + d)) e"
    by (simp add: await_def)
  show ?case
    by (simp add: inputs q aw)
next
  case (Cons p pre)
  from Cons.prems(4) obtain meanwhile later where inputs: "inputs = meanwhile # later"
    by (cases inputs) auto
  from Cons.prems(1) have q: "commands_queue s = p # (pre @ c # rest)" by simp
  from Cons.prems(2) obtain dp where dp: "cmd_outcome p = Returns dp" by auto
  then have aw: "await now p = Returns (max now (cmd_started p + dp))"
    by (simp add: await_def)
  let ?s' = "handle_timed meanwhile (s\<lparr>commands_queue := pre @ c # rest\<rparr>)"
  from handle_timed_queue [of meanwhile "s\<lparr>commands_queue := pre @ c # rest\<rparr>"]
  obtain new where "commands_queue ?s' = (pre @ c # rest) @ new" by auto
  then have q': "commands_queue ?s' = pre @ c # (rest @ new)" by simp
  from Cons.prems(2) have returns: "\<forall>p \<in> set pre. \<exists>d. cmd_outcome p = Returns d" by simp
  from Cons.prems(4) inputs have len: "length pre < length later" by simp
  note ih = Cons.IH [OF q' returns Cons.prems(3) len, of "max now (cmd_started p + dp) + 100"]
  have step: "command_mainloop inputs now s =
      prepend (now, p) (command_mainloop later (max now (cmd_started p + dp) + 100) ?s')"
    by (simp add: inputs q aw)
  from ih show ?case
    by (simp add: step ending_prepend reports_prepend)
qed

theorem command_error_propagates_witness:
  "commands_queue (execute_async_command 3 20 (Raises 50 ValueError)
      (execute_async_command 2 10 (Returns 200) (AsyncCTK_init 1000)))
     = [\<lparr>cmd_func = 2, cmd_started = 10, cmd_outcome = Returns 200\<rparr>,
        \<lparr>cmd_func = 3, cmd_started = 20, cmd_outcome = Raises 50 ValueError\<rparr>] \<and>
   ending (command_mainloop [[], []] 100
      (execute_async_command 3 20 (Raises 50 ValueError)
        (execute_async_command 2 10 (Returns 200) (AsyncCTK_init 1000)))) = Crashed ValueError \<and>
   map snd (reports (command_mainloop [[], []] 100
      (execute_async_command 3 20 (Raises 50 ValueError)
        (execute_async_command 2 10 (Returns 200) (AsyncCTK_init 1000)))))
     = [\<lparr>cmd_func = 2, cmd_started = 10, cmd_outcome = Returns 200\<rparr>,
        \<lparr>cmd_func = 3, cmd_started = 20, cmd_outcome = Raises 50 ValueError\<rparr>]"
proof -
  let ?s = "execute_async_command 3 20 (Raises 50 ValueError)
      (execute_async_command 2 10 (Returns 200) (AsyncCTK_init 1000))"
  let ?p = "\<lparr>cmd_func = 2, cmd_started = 10, cmd_outcome = Returns 200\<rparr>"
  let ?c = "\<lparr>cmd_func = 3, cmd_started = 20, cmd_outcome = Raises 50 ValueError\<rparr>"
  have q: "commands_queue ?s = [?p] @ ?c # []"
    by (simp add: execute_async_command_def wrapper_def gather_def AsyncCTK_init_def)
  have h2: "\<forall>p \<in> set [?p]. \<exists>d. cmd_outcome p = Returns d" by simp
  have h3: "cmd_outcome ?c = Raises 50 ValueError" by simp
  have h4: "length [?p] < length [[], [] :: (nat \<times> event) list]" by simp
  from command_error_propagates [OF q h2 h3 h4, of 100]
  have r: "ending (command_mainloop [[], []] 100 ?s) = Crashed ValueError \<and>
           map snd (reports (command_mainloop [[], []] 100 ?s)) = [?p] @ [?c]" .
  have q2: "commands_queue ?s = [?p, ?c]" using q by simp
  show ?thesis
    by (intro conjI) (rule q2, rule r [THEN conjunct1], use r [THEN conjunct2] in simp)
qed

section \<open>The GUI event pump\<close>

lemma handle_all_Nil: "handle_all now [] s = s"
  by (simp add: handle_all_def)

lemma handle_all_Cons: "handle_all now (e # es) s = handle_all now es (handle_event now e s)"
  by (simp add: handle_all_def)

lemma handle_event_set_pending:
  "handle_event now e (s\<lparr>tk_pending := es\<rparr>) = (handle_event now e s)\<lparr>tk_pending := es\<rparr>"
  by (cases e)
     (simp_all add: execute_async_command_def wrapper_def add_update_func_def
        remove_update_func_def split: prod.splits)

lemma handle_event_destroyed:
  "tk_destroyed (handle_event now e s) = (tk_destroyed s \<or> e = DestroyWindow)"
  by (cases e)
     (simp_all add: execute_async_command_def wrapper_def add_update_func_def
        remove_update_func_def split: prod.splits)

lemma handle_all_pending: "tk_pending (handle_all now es s) = tk_pending s"
proof (induction es arbitrary: s)
  case Nil
  show ?case by (simp only: handle_all_Nil)
next
  case (Cons e es)
  show ?case by (simp only: handle_all_Cons Cons.IH handle_event_pending)
qed

lemma handle_all_destroyed:
  "tk_destroyed (handle_all now es s) = (tk_destroyed s \<or> DestroyWindow \<in> set es)"
proof (induction es arbitrary: s)
  case Nil
  show ?case by (simp add: handle_all_Nil)
next
  case (Cons e es)
  show ?case
    by (simp only: handle_all_Cons Cons.IH handle_event_destroyed) auto
qed

lemma drain_handle_all:
  "tk_pending s = es \<Longrightarrow> drain now s = handle_all now es (s\<lparr>tk_pending := []\<rparr>)"
proof (induction es arbitrary: s)
  case Nil
  then have "dooneevent now s = (0, s)" by (simp add: dooneevent_def)
  then have "drain now s = s" by (subst drain.simps) simp
  moreover from Nil have "s\<lparr>tk_pending := []\<rparr> = s" by simp
  ultimately show ?case by (simp only: handle_all_Nil)
next
  case (Cons e es)
  let ?s1 = "handle_event now e (s\<lparr>tk_pending := es\<rparr>)"
  from Cons.prems have d: "dooneevent now s = (1, ?s1)" by (simp add: dooneevent_def)
  have unfold: "drain now s = drain now ?s1"
    by (subst drain.simps) (simp add: d)
  have p1: "tk_pending ?s1 = es" by (simp add: handle_event_pending)
  have "?s1\<lparr>tk_pending := []\<rparr> = handle_event now e (s\<lparr>tk_pending := []\<rparr>)"
    by (simp add: handle_event_set_pending)
  with Cons.IH [OF p1] unfold show ?case by (simp only: handle_all_Cons)
qed

lemma drain_pending: "tk_pending (drain now s) = []"
  by (simp add: drain_handle_all [OF refl] handle_all_pending)

lemma drain_destroyed:
  "tk_destroyed (drain now s) = (tk_destroyed s \<or> DestroyWindow \<in> set (tk_pending s))"
  by (simp add: drain_handle_all [OF refl] handle_all_destroyed)

lemma gui_mainloop_no_crash: "ending (gui_mainloop arrivals now s) \<noteq> Crashed e"
proof (induction arrivals arbitrary: now s)
  case Nil
  show ?case by simp
next
  case (Cons arrived later)
  show ?case
    by (cases "tk_destroyed (drain now (s\<lparr>tk_pending := tk_pending s @ arrived\<rparr>))")
       (simp_all only: gui_mainloop_step if_True if_False run.simps ending_prepend Cons.IH
          loop_end.distinct not_False_eq_True)
qed

lemma gui_mainloop_exited_iff:
  "ending (gui_mainloop arrivals now s) = Exited \<longleftrightarrow>
     arrivals \<noteq> [] \<and>
     (tk_destroyed s \<or> DestroyWindow \<in> set (tk_pending s) \<union> set (concat arrivals))"
proof (induction arrivals arbitrary: now s)
  case Nil
  show ?case by simp
next
  case (Cons arrived later)
  let ?s1 = "drain now (s\<lparr>tk_pending := tk_pending s @ arrived\<rparr>)"
  have d: "tk_destroyed ?s1 =
             (tk_destroyed s \<or> DestroyWindow \<in> set (tk_pending s) \<union> set arrived)"
    by (simp add: drain_destroyed)
  show ?case
  proof (cases "tk_destroyed ?s1")
    case True
    then have "ending (gui_mainloop (arrived # later) now s) = Exited"
      by (simp only: gui_mainloop_step if_True run.simps)
    with True d show ?thesis by auto
  next
    case False
    then have "ending (gui_mainloop (arrived # later) now s) =
                 ending (gui_mainloop later (now + 10) ?s1)"
      by (simp only: gui_mainloop_step if_False ending_prepend)
    moreover have "ending (gui_mainloop later (now + 10) ?s1) = Exited \<longleftrightarrow>
        later \<noteq> [] \<and> DestroyWindow \<in> set (concat later)"
      using Cons.IH [of "now + 10" ?s1] False by (simp add: drain_pending)
    ultimately show ?thesis using False d by auto
  qed
qed

text \<open>
  Claim C8. In each iteration the pump calls \<^verbatim>\<open>dooneevent\<close> until it reports that nothing
  was waiting: every event that was waiting is processed, in order of arrival, and none
  is left. Then \<^verbatim>\<open>winfo_exists\<close> is called. If the window has been destroyed the loop
  ends there through \<^verbatim>\<open>break\<close>, which is a normal exit; otherwise the next iteration
  begins 10 ms later. The pump never ends with an exception, and it ends exactly when a
  destroying of the window has been processed.
\<close>

theorem event_pump_iteration:
  "drain now s = handle_all now (tk_pending s) (s\<lparr>tk_pending := []\<rparr>) \<and>
   tk_pending (drain now s) = [] \<and>
   (tk_destroyed (drain now (s\<lparr>tk_pending := tk_pending s @ arrived\<rparr>)) \<longrightarrow>
      gui_mainloop (arrived # later) now s =
        \<lparr>reports = [now], ending = Exited, ended_at = now,
         final = drain now (s\<lparr>tk_pending := tk_pending s @ arrived\<rparr>)\<rparr>) \<and>
   (\<not> tk_destroyed (drain now (s\<lparr>tk_pending := tk_pending s @ arrived\<rparr>)) \<longrightarrow>
      gui_mainloop (arrived # later) now s =
        prepend now (gui_mainloop later (now + 10)
          (drain now (s\<lparr>tk_pending := tk_pending s @ arrived\<rparr>)))) \<and>
   (\<forall>e. ending (gui_mainloop arrivals now s) \<noteq> Crashed e) \<and>
   (ending (gui_mainloop arrivals now s) = Exited \<longleftrightarrow>
      arrivals \<noteq> [] \<and>
      (tk_destroyed s \<or> DestroyWindow \<in> set (tk_pending s) \<union> set (concat arrivals)))"
proof (intro conjI allI impI)
  show "drain now s = handle_all now (tk_pending s) (s\<lparr>tk_pending := []\<rparr>)"
    by (rule drain_handle_all [OF refl])
next
  show "tk_pending (drain now s) = []" by (rule drain_pending)
next
  assume "tk_destroyed (drain now (s\<lparr>tk_pending := tk_pending s @ arrived\<rparr>))"
  then show "gui_mainloop (arrived # later) now s =
        \<lparr>reports = [now], ending = Exited, ended_at = now,
         final = drain now (s\<lparr>tk_pending := tk_pending s @ arrived\<rparr>)\<rparr>"
    by (simp only: gui_mainloop_step if_True)
next
  assume "\<not> tk_destroyed (drain now (s\<lparr>tk_pending := tk_pending s @ arrived\<rparr>))"
  then show "gui_mainloop (arrived # later) now s =
        prepend now (gui_mainloop later (now + 10)
          (drain now (s\<lparr>tk_pending := tk_pending s @ arrived\<rparr>)))"
    by (simp only: gui_mainloop_step if_False)
next
  fix e
  show "ending (gui_mainloop arrivals now s) \<noteq> Crashed e" by (rule gui_mainloop_no_crash)
next
  show "ending (gui_mainloop arrivals now s) = Exited \<longleftrightarrow>
      arrivals \<noteq> [] \<and>
      (tk_destroyed s \<or> DestroyWindow \<in> set (tk_pending s) \<union> set (concat arrivals))"
    by (rule gui_mainloop_exited_iff)
qed

lemmas pump_eval =
  handle_all_Nil handle_all_Cons execute_async_command_def wrapper_def gather_def
  add_update_func_def remove_update_func_def list_append_def list_remove_def AsyncCTK_init_def

theorem event_pump_iteration_witness:
  "drain 0 (AsyncCTK_init 1000\<lparr>tk_pending := [Redraw, AddUpdate 2, DestroyWindow]\<rparr>)
     = AsyncCTK_init 1000\<lparr>update_funcs := [2], tk_destroyed := True\<rparr> \<and>
   tk_destroyed (drain 0 (AsyncCTK_init 1000\<lparr>tk_pending := [Redraw, AddUpdate 2, DestroyWindow]\<rparr>)) \<and>
   gui_mainloop [[Redraw, AddUpdate 2, DestroyWindow], [Redraw]] 0 (AsyncCTK_init 1000)
     = \<lparr>reports = [0], ending = Exited, ended_at = 0,
        final = AsyncCTK_init 1000\<lparr>update_funcs := [2], tk_destroyed := True\<rparr>\<rparr> \<and>
   \<not> tk_destroyed (drain 0 (AsyncCTK_init 1000\<lparr>tk_pending := [Redraw]\<rparr>)) \<and>
   gui_mainloop [[Redraw], [DestroyWindow]] 0 (AsyncCTK_init 1000)
     = prepend 0 (gui_mainloop [[DestroyWindow]] 10
         (drain 0 (AsyncCTK_init 1000\<lparr>tk_pending := [Redraw]\<rparr>)))"
proof -
  let ?s = "AsyncCTK_init 1000"
  let ?a = "[Redraw, AddUpdate 2, DestroyWindow]"
  have pend: "tk_pending ?s = []" by (simp add: AsyncCTK_init_def)
  have same: "\<And>es. ?s\<lparr>tk_pending := tk_pending ?s @ es\<rparr> = ?s\<lparr>tk_pending := es\<rparr>"
    by (simp add: AsyncCTK_init_def)
  note t1 = event_pump_iteration [where now = 0 and s = "?s\<lparr>tk_pending := ?a\<rparr>"]
  from t1 [THEN conjunct1]
  have a: "drain 0 (?s\<lparr>tk_pending := ?a\<rparr>) = ?s\<lparr>update_funcs := [2], tk_destroyed := True\<rparr>"
    by (simp add: pump_eval)
  then have b: "tk_destroyed (drain 0 (?s\<lparr>tk_pending := ?a\<rparr>))"
    by simp
  note t2 = event_pump_iteration [where now = 0 and s = ?s and arrived = ?a and later = "[[Redraw]]"]
  from b have b': "tk_destroyed (drain 0 (?s\<lparr>tk_pending := tk_pending ?s @ ?a\<rparr>))"
    by (simp only: same)
  from t2 [THEN conjunct2, THEN conjunct2, THEN conjunct1, THEN mp, OF b']
  have c: "gui_mainloop [?a, [Redraw]] 0 ?s =
      \<lparr>reports = [0], ending = Exited, ended_at = 0,
       final = ?s\<lparr>update_funcs := [2], tk_destroyed := True\<rparr>\<rparr>"
    by (simp only: same a)
  have d: "\<not> tk_destroyed (drain 0 (?s\<lparr>tk_pending := [Redraw]\<rparr>))"
    by (simp add: drain_destroyed AsyncCTK_init_def)
  have d': "\<not> tk_destroyed (drain 0 (?s\<lparr>tk_pending := tk_pending ?s @ [Redraw]\<rparr>))"
    unfolding same by (rule d)
  note t3 = event_pump_iteration [where now = 0 and s = ?s and arrived = "[Redraw]"
      and later = "[[DestroyWindow]]"]
  from t3 [THEN conjunct2, THEN conjunct2, THEN conjunct2, THEN conjunct1, THEN mp, OF d']
  have e: "gui_mainloop [[Redraw], [DestroyWindow]] 0 ?s =
      prepend 0 (gui_mainloop [[DestroyWindow]] 10 (drain 0 (?s\<lparr>tk_pending := [Redraw]\<rparr>)))"
    by (simp only: same add_0)
  show ?thesis
    by (intro conjI) (fact a, fact b, fact c, fact d, fact e)
qed

section \<open>Handlers of queued commands\<close>

text \<open>
  Claim C1, on the code. Three buttons made with \<^verbatim>\<open>execute_async_command\<close> are clicked
  one after the other, the three clicks being processed in one drain of the pump at
  time 0; each handler sleeps 2000 ms, as \<^verbatim>\<open>async_show_popup\<close> of the example does. The
  three commands are in the queue in the order of the clicks, and the dispatcher takes
  them in that order, at 0, 2100 and 2200 ms. But the task of each handler exists since
  its click, because \<^verbatim>\<open>asyncio.gather\<close> schedules the coroutine it is given: the three
  handlers all run from 0 to 2000 ms, and the second and third have finished before the
  dispatcher awaits them.
\<close>

theorem handlers_overlap:
  "map cmd_func (commands_queue (drain 0 (AsyncCTK_init 1000
      \<lparr>tk_pending := [Click 2 (Returns 2000), Click 3 (Returns 2000), Click 4 (Returns 2000)]\<rparr>)))
     = [2, 3, 4] \<and>
   map cmd_started (commands_queue (drain 0 (AsyncCTK_init 1000
      \<lparr>tk_pending := [Click 2 (Returns 2000), Click 3 (Returns 2000), Click 4 (Returns 2000)]\<rparr>)))
     = [0, 0, 0] \<and>
   map cmd_outcome (commands_queue (drain 0 (AsyncCTK_init 1000
      \<lparr>tk_pending := [Click 2 (Returns 2000), Click 3 (Returns 2000), Click 4 (Returns 2000)]\<rparr>)))
     = [Returns 2000, Returns 2000, Returns 2000] \<and>
   map fst (reports (command_mainloop [[], [], []] 0 (drain 0 (AsyncCTK_init 1000
      \<lparr>tk_pending := [Click 2 (Returns 2000), Click 3 (Returns 2000), Click 4 (Returns 2000)]\<rparr>))))
     = [0, 2100, 2200]"
proof -
  let ?c2 = "\<lparr>cmd_func = 2, cmd_started = 0, cmd_outcome = Returns 2000\<rparr>"
  let ?c3 = "\<lparr>cmd_func = 3, cmd_started = 0, cmd_outcome = Returns 2000\<rparr>"
  let ?c4 = "\<lparr>cmd_func = 4, cmd_started = 0, cmd_outcome = Returns 2000\<rparr>"
  have s: "drain 0 (AsyncCTK_init 1000
      \<lparr>tk_pending := [Click 2 (Returns 2000), Click 3 (Returns 2000), Click 4 (Returns 2000)]\<rparr>)
      = AsyncCTK_init 1000\<lparr>commands_queue := [?c2, ?c3, ?c4]\<rparr>"
    by (simp add: drain_handle_all [OF refl] pump_eval)
  show ?thesis
    unfolding s by (simp add: await_def handle_timed_Nil prepend_def)
qed

end
